theory Spec2Isabelle
  imports Complex_Main "HOL-Library.Extended_Nat" "HOL-Library.Multiset"
begin

section \<open>Errors\<close>

text \<open>
  The exceptions the modelled code can raise. A function that may raise returns
  \<open>error + 'a\<close>, with \<open>Inl\<close> carrying the exception.
\<close>

datatype error = ValueError | IndexError | ZeroDivisionError

definition bind_e :: "error + 'a \<Rightarrow> ('a \<Rightarrow> error + 'b) \<Rightarrow> error + 'b" where
  "bind_e m f = (case m of Inl e \<Rightarrow> Inl e | Inr x \<Rightarrow> f x)"

section \<open>utilities.py\<close>

subsection \<open>The Python built-ins used by the conversions\<close>

text \<open>
  \<open>bin(n)\<close> is the string \<open>0b\<close> followed by the binary digits of \<open>n\<close>, most
  significant digit first, with a leading minus sign for a negative \<open>n\<close>.
\<close>

fun bin_digits :: "nat \<Rightarrow> string" where
  "bin_digits n =
     (if n < 2 then [if n = 0 then CHR ''0'' else CHR ''1'']
      else bin_digits (n div 2) @ [if n mod 2 = 0 then CHR ''0'' else CHR ''1''])"

declare bin_digits.simps [simp del]

definition bin_py :: "int \<Rightarrow> string" where
  "bin_py n = (if n < 0 then ''-0b'' @ bin_digits (nat (- n)) else ''0b'' @ bin_digits (nat n))"

text \<open>\<open>s.replace('0b', '')\<close>: every occurrence of \<open>0b\<close>, scanning from the left, is dropped.\<close>

fun replace_0b :: "string \<Rightarrow> string" where
  "replace_0b [] = []"
| "replace_0b [c] = [c]"
| "replace_0b (c # d # cs) =
     (if c = CHR ''0'' \<and> d = CHR ''b'' then replace_0b cs else c # replace_0b (d # cs))"

text \<open>\<open>s.ljust(width, fill)\<close> appends the fill character on the right up to the width.\<close>

definition ljust :: "string \<Rightarrow> int \<Rightarrow> char \<Rightarrow> string" where
  "ljust s width fill = s @ replicate (nat width - length s) fill"

text \<open>\<open>int(c)\<close> on a one-character string: a decimal digit, or \<open>ValueError\<close>.\<close>

definition int_of_char :: "char \<Rightarrow> error + int" where
  "int_of_char c =
     (let k = (of_char c :: nat)
      in if 48 \<le> k \<and> k \<le> 57 then Inr (int k - 48) else Inl ValueError)"

text \<open>A list comprehension whose element expression may raise stops at the first exception.\<close>

fun comprehension :: "('a \<Rightarrow> error + 'b) \<Rightarrow> 'a list \<Rightarrow> error + 'b list" where
  "comprehension f [] = Inr []"
| "comprehension f (x # xs) =
     (case f x of Inl e \<Rightarrow> Inl e
      | Inr y \<Rightarrow> (case comprehension f xs of Inl e \<Rightarrow> Inl e | Inr ys \<Rightarrow> Inr (y # ys)))"

subsection \<open>The conversions\<close>

text \<open>
  \<open>bin_to_dec\<close> reduces the list from the left with the pair (position, sum); the digit
  at position \<open>i\<close> is shifted left by \<open>i\<close>.
\<close>

definition bin_to_dec :: "int list \<Rightarrow> int" where
  "bin_to_dec n =
     snd (foldl (\<lambda>prev curr. (fst prev + 1, snd prev + push_bit (fst prev) curr)) (0 :: nat, 0 :: int) n)"

text \<open>\<open>dec_to_bin(n, places)\<close>; the source's default \<open>places = 8\<close> is passed explicitly.\<close>

definition dec_to_bin :: "int \<Rightarrow> int \<Rightarrow> error + int list" where
  "dec_to_bin n places = comprehension int_of_char (ljust (replace_0b (bin_py n)) places CHR ''0'')"

text \<open>
  \<open>calc_level\<close> is floating-point in the source; it is modelled over the rationals. Python's
  true division raises on a zero divisor.
\<close>

definition calc_level :: "int \<Rightarrow> int \<Rightarrow> int \<times> int \<Rightarrow> error + rat" where
  "calc_level n max_num draw_range =
     (let valid_range = snd draw_range - fst draw_range
      in if max_num = 0 then Inl ZeroDivisionError
         else Inr ((of_int (max_num - n) / of_int max_num) * of_int valid_range
                   + of_int (fst draw_range)))"

section \<open>number_evolver.py\<close>

subsection \<open>Data\<close>

text \<open>
  The best estimate is the float \<open>math.inf\<close> until a candidate replaces it, and an
  integer from then on.
\<close>

datatype best_val = Infinity | Num int

text \<open>
  The frozen dataclass \<open>EvolutionIteration\<close>. Its fields \<open>iteration\<close> and
  \<open>population\<close> carry the prefix \<open>rec_\<close>, the evolver having fields of the same names.
\<close>

datatype evolution_iteration =
  EvolutionIteration (rec_iteration: int) (rec_population: "int list") (best_number: best_val)

text \<open>
  The private fields of \<open>NumberEvolver\<close>. The thread object is left out: \<open>start\<close> runs
  \<open>evolve\<close> below.
\<close>

record evolver =
  desired_number :: int
  population_size :: int
  max_bits :: int
  cross_range :: int
  best :: best_val
  iteration :: int
  new_pop :: "int list"
  history :: "evolution_iteration list"
  sleep :: rat
  population :: "int list"

subsection \<open>Library calls\<close>

text \<open>
  \<open>abs(x - best)\<close>: infinite while the best estimate is \<open>math.inf\<close>, the absolute
  difference of two integers afterwards.
\<close>

definition abs_diff :: "int \<Rightarrow> best_val \<Rightarrow> enat" where
  "abs_diff x b = (case b of Infinity \<Rightarrow> \<infinity> | Num v \<Rightarrow> enat (nat \<bar>x - v\<bar>))"

text \<open>
  \<open>math.floor(math.log(x, 2))\<close>, which raises on \<open>x \<le> 0\<close>. The floating-point logarithm
  is modelled by the exact one; the two agree for every \<open>x\<close> below \<open>2 ^ 48 - 1\<close>.
\<close>

fun floor_log2 :: "nat \<Rightarrow> nat" where
  "floor_log2 n = (if n < 2 then 0 else Suc (floor_log2 (n div 2)))"

declare floor_log2.simps [simp del]

definition math_floor_log2 :: "int \<Rightarrow> error + int" where
  "math_floor_log2 x = (if x \<le> 0 then Inl ValueError else Inr (int (floor_log2 (nat x))))"

text \<open>
  Randomness is an input of the model: every call that draws a random number takes the
  raw draw, a natural number, and reduces it into the range the call asks for.
  \<open>random.randint(a, b)\<close> raises on an empty range.
\<close>

definition randint :: "int \<Rightarrow> int \<Rightarrow> nat \<Rightarrow> error + int" where
  "randint a b draw = (if b < a then Inl ValueError else Inr (a + int (draw mod nat (b - a + 1))))"

text \<open>
  \<open>random.shuffle(x)\<close>: for \<open>i\<close> from \<open>len(x) - 1\<close> down to 1, position \<open>i\<close> is exchanged
  with a position drawn from \<open>0..i\<close>.
\<close>

fun shuffle_from :: "nat \<Rightarrow> (nat \<Rightarrow> nat) \<Rightarrow> 'a list \<Rightarrow> 'a list" where
  "shuffle_from 0 draw x = x"
| "shuffle_from (Suc i) draw x =
     (let j = draw (Suc i) mod (Suc i + 1)
      in shuffle_from i draw (x[Suc i := x ! j, j := x ! Suc i]))"

definition shuffle :: "(nat \<Rightarrow> nat) \<Rightarrow> 'a list \<Rightarrow> 'a list" where
  "shuffle draw x = shuffle_from (length x - 1) draw x"

text \<open>Subscription \<open>xs[i]\<close> and item assignment \<open>xs[i] = v\<close>, with Python's negative indices.\<close>

definition norm_index :: "'a list \<Rightarrow> int \<Rightarrow> error + nat" where
  "norm_index xs i =
     (if i < 0 then (if - int (length xs) \<le> i then Inr (nat (int (length xs) + i)) else Inl IndexError)
      else (if i < int (length xs) then Inr (nat i) else Inl IndexError))"

definition getitem :: "'a list \<Rightarrow> int \<Rightarrow> error + 'a" where
  "getitem xs i = bind_e (norm_index xs i) (\<lambda>k. Inr (xs ! k))"

definition setitem :: "'a list \<Rightarrow> int \<Rightarrow> 'a \<Rightarrow> error + 'a list" where
  "setitem xs i v = bind_e (norm_index xs i) (\<lambda>k. Inr (xs[k := v]))"

text \<open>A \<open>for\<close> loop whose body may raise, and \<open>range(n)\<close>.\<close>

fun for_loop :: "'i list \<Rightarrow> ('i \<Rightarrow> 's \<Rightarrow> error + 's) \<Rightarrow> 's \<Rightarrow> error + 's" where
  "for_loop [] body s = Inr s"
| "for_loop (i # is) body s =
     (case body i s of Inl e \<Rightarrow> Inl e | Inr s' \<Rightarrow> for_loop is body s')"

definition py_range :: "int \<Rightarrow> int list" where
  "py_range n = map int [0..<nat n]"

text \<open>\<open>time.sleep(secs)\<close> raises on a negative duration; the waiting itself is not modelled.\<close>

definition time_sleep :: "rat \<Rightarrow> error + unit" where
  "time_sleep secs = (if secs < 0 then Inl ValueError else Inr ())"

subsection \<open>Construction\<close>

text \<open>
  \<open>__init__\<close>. The parameter \<open>draws\<close> gives the raw draw of each member of the starting
  population.
\<close>

definition init :: "int \<Rightarrow> int \<Rightarrow> int \<Rightarrow> int \<Rightarrow> rat \<Rightarrow> (nat \<Rightarrow> nat) \<Rightarrow> error + evolver" where
  "init desired psize max_number crange slp draws =
     bind_e (math_floor_log2 max_number) (\<lambda>l.
       let psize' = max psize 2;
           bits = l + 1
       in bind_e (comprehension (\<lambda>i. randint 0 max_number (draws i)) [0..<nat psize']) (\<lambda>pop.
            Inr \<lparr> desired_number = min (max 0 desired) max_number,
                  population_size = psize',
                  max_bits = bits,
                  cross_range = min (bits div 2) crange,
                  best = Infinity,
                  iteration = 0,
                  new_pop = [],
                  history = [],
                  sleep = slp,
                  population = pop \<rparr>))"

subsection \<open>One generation\<close>

text \<open>The random draws of one mating: the shuffle, the crossover point, the mutated bit.\<close>

record mating =
  shuffle_draw :: "nat \<Rightarrow> nat"
  cross_draw :: nat
  mutation_draw :: nat

text \<open>
  \<open>male[k], female[k] = female[k], male[k]\<close>: both reads come first, then both writes.
\<close>

definition swap_bits :: "int \<Rightarrow> int list \<times> int list \<Rightarrow> error + int list \<times> int list" where
  "swap_bits k mf =
     bind_e (getitem (snd mf) k) (\<lambda>f.
     bind_e (getitem (fst mf) k) (\<lambda>m.
     bind_e (setitem (fst mf) k f) (\<lambda>male.
     bind_e (setitem (snd mf) k m) (\<lambda>female. Inr (male, female)))))"

text \<open>\<open>bits[k] = 1 - bits[k]\<close>.\<close>

definition flip_bit :: "int list \<Rightarrow> int \<Rightarrow> error + int list" where
  "flip_bit bits k = bind_e (getitem bits k) (\<lambda>b. setitem bits k (1 - b))"

text \<open>
  The body of the loop over \<open>range(population_size)\<close>: shuffle the pool in place, take its
  first two members as parents, cross, mutate, decode, and append the child nearer to the
  best estimate to \<open>new_pop\<close>.
\<close>

definition mate :: "mating \<Rightarrow> evolver \<Rightarrow> error + evolver" where
  "mate r s =
     (let pool = shuffle (shuffle_draw r) (population s)
      in bind_e (getitem pool 0) (\<lambda>p0.
         bind_e (dec_to_bin p0 (max_bits s)) (\<lambda>male.
         bind_e (getitem pool 1) (\<lambda>p1.
         bind_e (dec_to_bin p1 (max_bits s)) (\<lambda>female.
         bind_e (randint 0 (max_bits s div 2 - 1) (cross_draw r)) (\<lambda>cross.
         bind_e (for_loop (py_range (cross_range s)) (\<lambda>j. swap_bits (cross + j)) (male, female)) (\<lambda>mf.
         bind_e (randint 0 (max_bits s - 1) (mutation_draw r)) (\<lambda>mutation_id.
         bind_e (flip_bit (fst mf) mutation_id) (\<lambda>male.
         bind_e (flip_bit (snd mf) mutation_id) (\<lambda>female.
         bind_e (getitem (sort_key (\<lambda>x. abs_diff x (best s)) [bin_to_dec male, bin_to_dec female]) 0) (\<lambda>child.
           Inr (s\<lparr>population := pool, new_pop := new_pop s @ [child]\<rparr>))))))))))))"

text \<open>
  The rescan of the new population: the best estimate is kept when
  \<open>best_diff <= num_diff\<close>, and becomes \<open>num\<close> otherwise.
\<close>

definition search_step :: "int \<Rightarrow> best_val \<Rightarrow> int \<Rightarrow> best_val" where
  "search_step desired b num =
     (let num_diff = enat (nat \<bar>desired - num\<bar>);
          best_diff = abs_diff desired b
      in if best_diff \<le> num_diff then b else Num num)"

definition search_best :: "int \<Rightarrow> best_val \<Rightarrow> int list \<Rightarrow> best_val" where
  "search_best desired b pop = foldl (search_step desired) b pop"

text \<open>
  The body of the \<open>while\<close> loop of \<open>__evolve\<close>; \<open>rnd i\<close> gives the draws of the
  \<open>i\<close>-th mating.
\<close>

definition generation :: "(nat \<Rightarrow> mating) \<Rightarrow> evolver \<Rightarrow> error + evolver" where
  "generation rnd s0 =
     (let s1 = s0\<lparr>iteration := iteration s0 + 1\<rparr>;
          s2 = s1\<lparr>population := sort_key (\<lambda>x. abs_diff x (best s1)) (population s1)\<rparr>;
          s3 = s2\<lparr>population := take (nat (max (population_size s2 div 4) 2)) (population s2)\<rparr>
      in bind_e (for_loop [0..<nat (population_size s3)] (\<lambda>i. mate (rnd i)) s3) (\<lambda>s4.
           let s5 = s4\<lparr>population := new_pop s4, new_pop := []\<rparr>;
               s6 = s5\<lparr>best := search_best (desired_number s5) (best s5) (population s5)\<rparr>;
               s7 = s6\<lparr>history := history s6 @ [EvolutionIteration (iteration s6) (population s6) (best s6)]\<rparr>
           in bind_e (time_sleep (sleep s7)) (\<lambda>_. Inr s7)))"

subsection \<open>The loop\<close>

text \<open>
  One turn of \<open>while self.__best != self.__desired_number\<close>: \<open>None\<close> when the condition
  is false and the loop is left, the outcome of the body otherwise.
\<close>

definition evolve_step :: "(nat \<Rightarrow> mating) \<Rightarrow> evolver \<Rightarrow> (error + evolver) option" where
  "evolve_step rnd s = (if best s \<noteq> Num (desired_number s) then Some (generation rnd s) else None)"

text \<open>
  \<open>__evolve\<close>, driven by the draws of the successive generations: the state when the
  loop is left or the draws are used up, or the exception that ended the thread.
\<close>

fun evolve :: "(nat \<Rightarrow> mating) list \<Rightarrow> evolver \<Rightarrow> error + evolver" where
  "evolve [] s = Inr s"
| "evolve (rnd # rnds) s =
     (case evolve_step rnd s of
        None \<Rightarrow> Inr s
      | Some (Inl e) \<Rightarrow> Inl e
      | Some (Inr s') \<Rightarrow> evolve rnds s')"

subsection \<open>Example inputs\<close>

text \<open>
  A concrete run: target 5, four members, \<open>max_number = 7\<close> (3 bits). In every mating the
  shuffle draws 0 at each exchange, the crossover starts at position 0 and the mutation
  flips position 2.
\<close>

definition example_draws :: "nat \<Rightarrow> mating" where
  "example_draws = (\<lambda>_. \<lparr>shuffle_draw = (\<lambda>_. 0), cross_draw = 0, mutation_draw = 2\<rparr>)"

definition example_start :: evolver where
  "example_start = \<lparr>desired_number = 5, population_size = 4, max_bits = 3, cross_range = 1,
     best = Infinity, iteration = 0, new_pop = [], history = [], sleep = 1,
     population = [0, 1, 2, 3]\<rparr>"

definition example_next :: evolver where
  "example_next = \<lparr>desired_number = 5, population_size = 4, max_bits = 3, cross_range = 1,
     best = Num 5, iteration = 1, new_pop = [],
     history = [EvolutionIteration 1 [4, 5, 4, 5] (Num 5)], sleep = 1,
     population = [4, 5, 4, 5]\<rparr>"

text \<open>
  A second run, with \<open>max_number = 4\<close> (3 bits), target 0 and two members that both start
  at 4.
\<close>

definition overflow_start :: evolver where
  "overflow_start = \<lparr>desired_number = 0, population_size = 2, max_bits = 3, cross_range = 1,
     best = Infinity, iteration = 0, new_pop = [], history = [], sleep = 1,
     population = [4, 4]\<rparr>"

definition overflow_next :: evolver where
  "overflow_next = \<lparr>desired_number = 0, population_size = 2, max_bits = 3, cross_range = 1,
     best = Num 5, iteration = 1, new_pop = [],
     history = [EvolutionIteration 1 [5, 5] (Num 5)], sleep = 1,
     population = [5, 5]\<rparr>"

subsection \<open>Invariants\<close>

text \<open>
  Bit lists of width at least \<open>w\<close> with digits 0 and 1; a breeding pool that a mating can
  draw two non-negative parents from; and what holds of the evolver between generations.
\<close>

definition bits_ok :: "int \<Rightarrow> int list \<Rightarrow> bool" where
  "bits_ok w bits \<longleftrightarrow> w \<le> int (length bits) \<and> set bits \<subseteq> {0, 1}"

definition pool_ok :: "evolver \<Rightarrow> bool" where
  "pool_ok s \<longleftrightarrow> 2 \<le> length (population s) \<and> (\<forall>x\<in>set (population s). 0 \<le> x)
     \<and> cross_range s \<le> max_bits s div 2"

definition evolver_inv :: "evolver \<Rightarrow> bool" where
  "evolver_inv s \<longleftrightarrow> 2 \<le> population_size s \<and> length (population s) = nat (population_size s)
     \<and> new_pop s = [] \<and> cross_range s \<le> max_bits s div 2 \<and> (\<forall>x\<in>set (population s). 0 \<le> x)"

section \<open>General lemmas\<close>

lemma bind_e_Inr_iff: "bind_e m f = Inr y \<longleftrightarrow> (\<exists>x. m = Inr x \<and> f x = Inr y)"
  by (cases m) (simp_all add: bind_e_def)

lemma example_init: "init 5 4 7 1 1 (\<lambda>i. i) = Inr example_start"
  by code_simp

lemma example_step: "evolve_step example_draws example_start = Some (Inr example_next)"
  by code_simp

subsection \<open>What a mating and a generation leave unchanged\<close>

lemma mate_frame:
  assumes "mate r s = Inr s'"
  shows "\<exists>child. s' = s\<lparr>population := shuffle (shuffle_draw r) (population s),
                          new_pop := new_pop s @ [child]\<rparr>"
  using assms unfolding mate_def Let_def bind_e_Inr_iff by blast

lemma for_loop_mate_frame:
  "for_loop is (\<lambda>i. mate (rnd i)) s = Inr s' \<Longrightarrow>
     (\<exists>pool children. length children = length is \<and>
        s' = s\<lparr>population := pool, new_pop := new_pop s @ children\<rparr>)"
proof (induction "is" arbitrary: s)
  case Nil
  have "s = s\<lparr>population := population s, new_pop := new_pop s @ []\<rparr>" by simp
  with Nil show ?case
    by (metis for_loop.simps(1) length_0_conv sum.inject(2) list.size(3))
next
  case (Cons i "is")
  from Cons.prems obtain s1 where m: "mate (rnd i) s = Inr s1"
    and rest: "for_loop is (\<lambda>i. mate (rnd i)) s1 = Inr s'"
    by (auto split: sum.splits)
  from mate_frame [OF m] obtain child where
    s1: "s1 = s\<lparr>population := shuffle (shuffle_draw (rnd i)) (population s),
                 new_pop := new_pop s @ [child]\<rparr>"
    by blast
  from Cons.IH [OF rest] obtain pool children where
    len: "length children = length is"
    and s': "s' = s1\<lparr>population := pool, new_pop := new_pop s1 @ children\<rparr>"
    by blast
  have "length (child # children) = length (i # is)" using len by simp
  moreover have "s' = s\<lparr>population := pool, new_pop := new_pop s @ (child # children)\<rparr>"
    using s' s1 by simp
  ultimately show ?case by blast
qed

lemma generation_frame:
  assumes "generation rnd s = Inr s'"
  shows "\<exists>children. length children = nat (population_size s) \<and>
           s' = s\<lparr>iteration := iteration s + 1,
                   population := new_pop s @ children,
                   new_pop := [],
                   best := search_best (desired_number s) (best s) (new_pop s @ children),
                   history := history s @ [EvolutionIteration (iteration s + 1) (new_pop s @ children)
                      (search_best (desired_number s) (best s) (new_pop s @ children))]\<rparr>"
proof -
  let ?s3 = "s\<lparr>iteration := iteration s + 1,
      population := take (nat (max (population_size s div 4) 2))
                      (sort_key (\<lambda>x. abs_diff x (best s)) (population s))\<rparr>"
  from assms obtain s4
    where loop: "for_loop [0..<nat (population_size s)] (\<lambda>i. mate (rnd i)) ?s3 = Inr s4"
    and fin: "s' = s4\<lparr>population := new_pop s4, new_pop := [],
        best := search_best (desired_number s4) (best s4) (new_pop s4),
        history := history s4 @ [EvolutionIteration (iteration s4) (new_pop s4)
           (search_best (desired_number s4) (best s4) (new_pop s4))]\<rparr>"
    unfolding generation_def Let_def bind_e_Inr_iff by auto
  from for_loop_mate_frame [OF loop] obtain pool children where
    len: "length children = length [0..<nat (population_size s)]"
    and s4: "s4 = ?s3\<lparr>population := pool, new_pop := new_pop ?s3 @ children\<rparr>"
    by blast
  have "length children = nat (population_size s)" using len by simp
  moreover have "s' = s\<lparr>iteration := iteration s + 1,
                   population := new_pop s @ children,
                   new_pop := [],
                   best := search_best (desired_number s) (best s) (new_pop s @ children),
                   history := history s @ [EvolutionIteration (iteration s + 1) (new_pop s @ children)
                      (search_best (desired_number s) (best s) (new_pop s @ children))]\<rparr>"
    unfolding fin s4 by simp
  ultimately show ?thesis by blast
qed

lemma evolve_step_generation:
  "evolve_step rnd s = Some (Inr s') \<Longrightarrow> generation rnd s = Inr s'"
  by (simp add: evolve_step_def split: if_splits)

subsection \<open>The rescan\<close>

lemma search_step_cases:
  "search_step d b x = (if enat (nat \<bar>d - x\<bar>) < abs_diff d b then Num x else b)"
  by (auto simp: search_step_def Let_def)

lemma abs_diff_Num: "abs_diff d (Num x) = enat (nat \<bar>d - x\<bar>)"
  by (simp add: abs_diff_def)

lemma search_best_Nil: "search_best d b [] = b"
  by (simp add: search_best_def)

lemma search_best_Cons: "search_best d b (x # xs) = search_best d (search_step d b x) xs"
  by (simp add: search_best_def)

lemma search_best_le: "abs_diff d (search_best d b pop) \<le> abs_diff d b"
proof (induction pop arbitrary: b)
  case Nil
  show ?case by (simp add: search_best_Nil)
next
  case (Cons x xs)
  have "abs_diff d (search_step d b x) \<le> abs_diff d b"
    by (auto simp: search_step_cases abs_diff_Num intro: less_imp_le)
  with Cons.IH [of "search_step d b x"] show ?case
    by (simp add: search_best_Cons)
qed

lemma search_best_keep:
  "\<forall>x\<in>set pop. abs_diff d b \<le> abs_diff d (Num x) \<Longrightarrow> search_best d b pop = b"
  by (induction pop)
    (auto simp: search_best_Nil search_best_Cons search_step_cases abs_diff_Num dest: leD)

lemma search_best_member:
  "search_best d b pop = b \<or>
   (\<exists>x\<in>set pop. search_best d b pop = Num x \<and> abs_diff d (Num x) < abs_diff d b)"
proof (induction pop arbitrary: b)
  case Nil
  show ?case by (simp add: search_best_Nil)
next
  case (Cons x xs)
  show ?case
  proof (cases "enat (nat \<bar>d - x\<bar>) < abs_diff d b")
    case False
    then have "search_step d b x = b" by (simp add: search_step_cases)
    with Cons.IH [of b] show ?thesis by (auto simp: search_best_Cons)
  next
    case True
    then have st: "search_step d b x = Num x" by (simp add: search_step_cases)
    from Cons.IH [of "Num x"] show ?thesis
    proof
      assume "search_best d (Num x) xs = Num x"
      with True st show ?thesis by (simp add: search_best_Cons abs_diff_Num)
    next
      assume "\<exists>y\<in>set xs. search_best d (Num x) xs = Num y
                \<and> abs_diff d (Num y) < abs_diff d (Num x)"
      then obtain y where y: "y \<in> set xs" "search_best d (Num x) xs = Num y"
        and lt: "abs_diff d (Num y) < abs_diff d (Num x)" by blast
      from lt have "abs_diff d (Num y) < enat (nat \<bar>d - x\<bar>)"
        by (simp only: abs_diff_Num)
      from this True have "abs_diff d (Num y) < abs_diff d b"
        by (rule less_trans)
      with y st show ?thesis
        by (auto simp: search_best_Cons)
    qed
  qed
qed

lemma search_step_le_member: "abs_diff d (search_step d b x) \<le> abs_diff d (Num x)"
  by (auto simp: search_step_cases abs_diff_Num)

lemma search_best_min: "\<forall>x\<in>set pop. abs_diff d (search_best d b pop) \<le> abs_diff d (Num x)"
proof (induction pop arbitrary: b)
  case Nil
  show ?case by simp
next
  case (Cons x xs)
  have "abs_diff d (search_best d (search_step d b x) xs) \<le> abs_diff d (search_step d b x)"
    by (rule search_best_le)
  also have "\<dots> \<le> abs_diff d (Num x)" by (rule search_step_le_member)
  finally have "abs_diff d (search_best d b (x # xs)) \<le> abs_diff d (Num x)"
    by (simp only: search_best_Cons)
  moreover from Cons.IH [of "search_step d b x"]
  have "\<forall>y\<in>set xs. abs_diff d (search_best d b (x # xs)) \<le> abs_diff d (Num y)"
    by (simp only: search_best_Cons)
  ultimately show ?case by simp
qed

lemma search_best_replaces:
  assumes "x \<in> set pop" and "abs_diff d (Num x) < abs_diff d b"
  shows "search_best d b pop \<noteq> b"
proof
  assume "search_best d b pop = b"
  with search_best_min [of pop d b] assms(1) have "abs_diff d b \<le> abs_diff d (Num x)" by auto
  with assms(2) show False by (simp add: leD)
qed

subsection \<open>The encoder\<close>

lemma bin_digits_chars: "set (bin_digits n) \<subseteq> {CHR ''0'', CHR ''1''}"
proof (induction n rule: bin_digits.induct)
  case (1 n)
  show ?case
  proof (cases "n < 2")
    case True
    then show ?thesis by (subst bin_digits.simps) simp
  next
    case False
    with 1 show ?thesis by (subst bin_digits.simps) auto
  qed
qed

lemma replace_0b_no_b: "CHR ''b'' \<notin> set cs \<Longrightarrow> replace_0b cs = cs"
  by (induction cs rule: replace_0b.induct) auto

lemma bin_py_stripped: "0 \<le> n \<Longrightarrow> replace_0b (bin_py n) = bin_digits (nat n)"
proof -
  assume "0 \<le> n"
  have "CHR ''b'' \<notin> set (bin_digits (nat n))"
    using bin_digits_chars [of "nat n"] by auto
  then have "replace_0b (bin_digits (nat n)) = bin_digits (nat n)"
    by (rule replace_0b_no_b)
  with \<open>0 \<le> n\<close> show ?thesis by (simp add: bin_py_def)
qed

lemma int_of_char_01:
  "int_of_char CHR ''0'' = Inr 0" "int_of_char CHR ''1'' = Inr 1"
  by (simp_all add: int_of_char_def)

lemma comprehension_bits:
  "set cs \<subseteq> {CHR ''0'', CHR ''1''} \<Longrightarrow>
     comprehension int_of_char cs = Inr (map (\<lambda>c. if c = CHR ''1'' then 1 else 0) cs)"
  by (induction cs) (auto simp: int_of_char_01)

lemma dec_to_bin_nonneg:
  assumes "0 \<le> n"
  shows "dec_to_bin n places =
           Inr (map (\<lambda>c. if c = CHR ''1'' then 1 else 0) (ljust (bin_digits (nat n)) places CHR ''0''))"
proof -
  have "set (ljust (bin_digits (nat n)) places CHR ''0'') \<subseteq> {CHR ''0'', CHR ''1''}"
    using bin_digits_chars [of "nat n"] by (auto simp: ljust_def)
  then show ?thesis
    using assms by (simp add: dec_to_bin_def bin_py_stripped comprehension_bits)
qed

subsection \<open>Indexing, crossover, mutation and shuffling\<close>

lemma norm_index_ok: "0 \<le> i \<Longrightarrow> i < int (length xs) \<Longrightarrow> norm_index xs i = Inr (nat i)"
  by (simp add: norm_index_def)

lemma getitem_ok: "0 \<le> i \<Longrightarrow> i < int (length xs) \<Longrightarrow> getitem xs i = Inr (xs ! nat i)"
  by (simp add: getitem_def norm_index_ok bind_e_def)

lemma setitem_ok: "0 \<le> i \<Longrightarrow> i < int (length xs) \<Longrightarrow> setitem xs i v = Inr (xs[nat i := v])"
  by (simp add: setitem_def norm_index_ok bind_e_def)

lemma bits_ok_update:
  assumes "bits_ok w bits" and "v \<in> {0, 1}"
  shows "bits_ok w (bits[k := v])"
proof -
  have "set (bits[k := v]) \<subseteq> insert v (set bits)" by (rule set_update_subset_insert)
  with assms show ?thesis by (auto simp: bits_ok_def)
qed

lemma bits_ok_nth: "bits_ok w bits \<Longrightarrow> 0 \<le> k \<Longrightarrow> k < w \<Longrightarrow> bits ! nat k \<in> {0, 1}"
proof -
  assume a: "bits_ok w bits" "0 \<le> k" "k < w"
  then have "nat k < length bits" unfolding bits_ok_def by linarith
  then have "bits ! nat k \<in> set bits" by (rule nth_mem)
  with a show ?thesis by (auto simp: bits_ok_def)
qed

lemma swap_bits_ok:
  assumes "0 \<le> k" and "k < w" and m: "bits_ok w m" and f: "bits_ok w f"
  shows "\<exists>m' f'. swap_bits k (m, f) = Inr (m', f') \<and> bits_ok w m' \<and> bits_ok w f'"
proof -
  from assms have km: "k < int (length m)" and kf: "k < int (length f)"
    by (simp_all add: bits_ok_def)
  have eq: "swap_bits k (m, f) = Inr (m[nat k := f ! nat k], f[nat k := m ! nat k])"
    using \<open>0 \<le> k\<close> km kf by (simp add: swap_bits_def getitem_ok setitem_ok bind_e_def)
  have "bits_ok w (m[nat k := f ! nat k])"
    using m bits_ok_nth [OF f \<open>0 \<le> k\<close> \<open>k < w\<close>] by (rule bits_ok_update)
  moreover have "bits_ok w (f[nat k := m ! nat k])"
    using f bits_ok_nth [OF m \<open>0 \<le> k\<close> \<open>k < w\<close>] by (rule bits_ok_update)
  ultimately show ?thesis using eq by blast
qed

lemma cross_loop_ok:
  "bits_ok w m \<Longrightarrow> bits_ok w f \<Longrightarrow> \<forall>j\<in>set js. 0 \<le> c + j \<and> c + j < w \<Longrightarrow>
     \<exists>m' f'. for_loop js (\<lambda>j. swap_bits (c + j)) (m, f) = Inr (m', f') \<and> bits_ok w m' \<and> bits_ok w f'"
proof (induction js arbitrary: m f)
  case Nil
  then show ?case by simp
next
  case (Cons j js)
  from Cons.prems have "0 \<le> c + j" "c + j < w" by simp_all
  from swap_bits_ok [OF this Cons.prems(1,2)] obtain m1 f1 where
    sw: "swap_bits (c + j) (m, f) = Inr (m1, f1)" and ok: "bits_ok w m1" "bits_ok w f1"
    by blast
  from Cons.prems(3) have "\<forall>j\<in>set js. 0 \<le> c + j \<and> c + j < w" by simp
  from Cons.IH [OF ok this] sw show ?case by simp
qed

lemma flip_bit_ok:
  assumes "0 \<le> k" and "k < w" and b: "bits_ok w bits"
  shows "\<exists>bits'. flip_bit bits k = Inr bits' \<and> bits_ok w bits'"
proof -
  from assms have kl: "k < int (length bits)" by (simp add: bits_ok_def)
  have eq: "flip_bit bits k = Inr (bits[nat k := 1 - bits ! nat k])"
    using \<open>0 \<le> k\<close> kl by (simp add: flip_bit_def getitem_ok setitem_ok bind_e_def)
  from bits_ok_nth [OF b \<open>0 \<le> k\<close> \<open>k < w\<close>] have "1 - bits ! nat k \<in> {0, 1}" by auto
  with b have "bits_ok w (bits[nat k := 1 - bits ! nat k])" by (rule bits_ok_update)
  with eq show ?thesis by blast
qed

lemma bin_to_dec_fold_nonneg:
  "0 \<le> acc \<Longrightarrow> \<forall>b\<in>set bits. 0 \<le> b \<Longrightarrow>
     0 \<le> snd (foldl (\<lambda>prev curr. (fst prev + 1, snd prev + push_bit (fst prev) curr)) (i :: nat, acc :: int) bits)"
proof (induction bits arbitrary: i acc)
  case Nil
  then show ?case by simp
next
  case (Cons b bits)
  from Cons.prems have "0 \<le> acc + push_bit i b" by (simp add: push_bit_eq_mult)
  moreover from Cons.prems have "\<forall>b\<in>set bits. 0 \<le> b" by simp
  ultimately show ?case using Cons.IH [of "acc + push_bit i b" "i + 1"] by simp
qed

lemma bin_to_dec_nonneg: "bits_ok w bits \<Longrightarrow> 0 \<le> bin_to_dec bits"
  unfolding bin_to_dec_def by (rule bin_to_dec_fold_nonneg) (auto simp: bits_ok_def)

lemma mset_shuffle_from: "i < length x \<Longrightarrow> mset (shuffle_from i draw x) = mset x"
proof (induction i arbitrary: x)
  case 0
  show ?case by simp
next
  case (Suc i)
  let ?j = "draw (Suc i) mod (Suc i + 1)"
  let ?x = "x[Suc i := x ! ?j, ?j := x ! Suc i]"
  have "?j < Suc (Suc i)" by simp
  then have "?j \<le> Suc i" by (simp only: less_Suc_eq_le)
  from this Suc.prems have j: "?j < length x" by (rule le_less_trans)
  have "mset ?x = mset x" using j Suc.prems by (rule mset_swap)
  moreover have "i < length ?x" using Suc.prems by simp
  ultimately show ?case using Suc.IH [of ?x] by (simp add: Let_def)
qed

lemma mset_shuffle: "mset (shuffle draw x) = mset x"
proof (cases x)
  case Nil
  then show ?thesis by (simp add: shuffle_def)
next
  case (Cons a as)
  then have "length x - 1 < length x" by simp
  then show ?thesis unfolding shuffle_def by (rule mset_shuffle_from)
qed

lemma length_shuffle: "length (shuffle draw x) = length x"
  using mset_shuffle [of draw x] by (rule mset_eq_length)

lemma set_shuffle: "set (shuffle draw x) = set x"
  using mset_shuffle [of draw x] by (rule mset_eq_setD)

lemma randint_range: "randint a b d = Inr v \<Longrightarrow> a \<le> v \<and> v \<le> b"
proof -
  assume r: "randint a b d = Inr v"
  then have ab: "a \<le> b" and v: "v = a + int (d mod nat (b - a + 1))"
    by (auto simp: randint_def split: if_splits)
  from ab have "d mod nat (b - a + 1) < nat (b - a + 1)" by simp
  with ab v show ?thesis by linarith
qed

lemma randint_nonempty: "a \<le> b \<Longrightarrow> \<exists>v. randint a b d = Inr v"
  by (simp add: randint_def)

lemma children_first:
  "\<exists>c. getitem (sort_key k [a, b]) 0 = Inr c \<and> (c = a \<or> c = b)"
  by (simp add: getitem_def norm_index_def bind_e_def)

subsection \<open>A mating keeps the pool and adds one child\<close>

lemma bind_e_Inr: "bind_e (Inr x) f = f x"
  by (simp add: bind_e_def)

lemma bind_e_Inl: "bind_e (Inl e) f = Inl e"
  by (simp add: bind_e_def)

lemma dec_to_bin_ok:
  assumes "0 \<le> n"
  shows "\<exists>bits. dec_to_bin n places = Inr bits \<and> bits_ok places bits"
proof -
  let ?bits = "map (\<lambda>c. if c = CHR ''1'' then 1 else (0::int)) (ljust (bin_digits (nat n)) places CHR ''0'')"
  have "dec_to_bin n places = Inr ?bits" by (rule dec_to_bin_nonneg [OF assms])
  moreover have "places \<le> int (length ?bits)" by (simp add: ljust_def)
  moreover have "set ?bits \<subseteq> {0, 1}" by auto
  ultimately show ?thesis unfolding bits_ok_def by blast
qed

lemma mate_ok:
  assumes ok: "pool_ok s"
  shows "mate r s = Inl ValueError \<or>
         (\<exists>child. 0 \<le> child \<and>
            mate r s = Inr (s\<lparr>population := shuffle (shuffle_draw r) (population s),
                               new_pop := new_pop s @ [child]\<rparr>))"
proof -
  let ?pool = "shuffle (shuffle_draw r) (population s)"
  let ?w = "max_bits s"
  from ok have len: "2 \<le> length ?pool" by (simp add: pool_ok_def length_shuffle)
  from ok have nonneg: "\<forall>x\<in>set ?pool. 0 \<le> x" by (simp add: pool_ok_def set_shuffle)
  from ok have cr: "cross_range s \<le> ?w div 2" by (simp add: pool_ok_def)
  from len have l0: "0 < length ?pool" and l1: "1 < length ?pool" by linarith+
  from l0 have "getitem ?pool 0 = Inr (?pool ! nat 0)" by (intro getitem_ok) simp_all
  then have g0: "getitem ?pool 0 = Inr (?pool ! 0)" by simp
  from l1 have "getitem ?pool 1 = Inr (?pool ! nat 1)" by (intro getitem_ok) simp_all
  then have g1: "getitem ?pool 1 = Inr (?pool ! 1)" by simp
  have "?pool ! 0 \<in> set ?pool" using l0 by (rule nth_mem)
  moreover have "?pool ! 1 \<in> set ?pool" using l1 by (rule nth_mem)
  ultimately have "?pool ! 0 \<in> set ?pool" and "?pool ! 1 \<in> set ?pool" by this+
  with nonneg have p0: "0 \<le> ?pool ! 0" and p1: "0 \<le> ?pool ! 1" by blast+
  from dec_to_bin_ok [OF p0] obtain male where
    dm: "dec_to_bin (?pool ! 0) ?w = Inr male" and mok: "bits_ok ?w male"
    by blast
  from dec_to_bin_ok [OF p1] obtain female where
    df: "dec_to_bin (?pool ! 1) ?w = Inr female" and fok: "bits_ok ?w female"
    by blast
  show ?thesis
  proof (cases "?w div 2 - 1 < 0")
    case True
    then have "randint 0 (?w div 2 - 1) (cross_draw r) = Inl ValueError"
      by (simp add: randint_def)
    then have "mate r s = Inl ValueError"
      unfolding mate_def Let_def by (simp only: g0 g1 dm df bind_e_Inr bind_e_Inl)
    then show ?thesis ..
  next
    case False
    then obtain cross where rc: "randint 0 (?w div 2 - 1) (cross_draw r) = Inr cross"
      using randint_nonempty [of 0 "?w div 2 - 1" "cross_draw r"] by auto
    from randint_range [OF rc] have c: "0 \<le> cross" "cross \<le> ?w div 2 - 1" by simp_all
    have "\<forall>j\<in>set (py_range (cross_range s)). 0 \<le> cross + j \<and> cross + j < ?w"
    proof
      fix j assume "j \<in> set (py_range (cross_range s))"
      then have "0 \<le> j" "j < cross_range s" by (auto simp: py_range_def)
      with c cr show "0 \<le> cross + j \<and> cross + j < ?w" by linarith
    qed
    from cross_loop_ok [OF mok fok this] obtain m1 f1 where
      lp: "for_loop (py_range (cross_range s)) (\<lambda>j. swap_bits (cross + j)) (male, female) = Inr (m1, f1)"
      and m1: "bits_ok ?w m1" and f1: "bits_ok ?w f1" by blast
    from False have "0 \<le> ?w - 1" by linarith
    then obtain mid where rm: "randint 0 (?w - 1) (mutation_draw r) = Inr mid"
      using randint_nonempty [of 0 "?w - 1" "mutation_draw r"] by auto
    from randint_range [OF rm] have mid: "0 \<le> mid" "mid < ?w" by simp_all
    from flip_bit_ok [OF mid m1] obtain m2 where fm: "flip_bit m1 mid = Inr m2" and m2: "bits_ok ?w m2"
      by blast
    from flip_bit_ok [OF mid f1] obtain f2 where ff: "flip_bit f1 mid = Inr f2" and f2: "bits_ok ?w f2"
      by blast
    from children_first [of "\<lambda>x. abs_diff x (best s)" "bin_to_dec m2" "bin_to_dec f2"]
    obtain child where
      gc: "getitem (sort_key (\<lambda>x. abs_diff x (best s)) [bin_to_dec m2, bin_to_dec f2]) 0 = Inr child"
      and ch: "child = bin_to_dec m2 \<or> child = bin_to_dec f2" by blast
    from ch bin_to_dec_nonneg [OF m2] bin_to_dec_nonneg [OF f2] have "0 \<le> child" by auto
    moreover have "mate r s = Inr (s\<lparr>population := ?pool, new_pop := new_pop s @ [child]\<rparr>)"
      unfolding mate_def Let_def
      by (simp only: g0 g1 dm df rc lp rm fm ff gc bind_e_Inr fst_conv snd_conv)
    ultimately show ?thesis by blast
  qed
qed

lemma for_loop_mate_ok:
  "pool_ok s \<Longrightarrow>
     for_loop is (\<lambda>i. mate (rnd i)) s = Inl ValueError \<or>
     (\<exists>pool children. length children = length is \<and> (\<forall>x\<in>set children. 0 \<le> x) \<and>
        for_loop is (\<lambda>i. mate (rnd i)) s = Inr (s\<lparr>population := pool, new_pop := new_pop s @ children\<rparr>))"
proof (induction "is" arbitrary: s)
  case Nil
  have "s = s\<lparr>population := population s, new_pop := new_pop s @ []\<rparr>" by simp
  then have "length ([] :: int list) = length ([] :: 'a list) \<and> (\<forall>x\<in>set ([] :: int list). 0 \<le> x) \<and>
     for_loop [] (\<lambda>i. mate (rnd i)) s = Inr (s\<lparr>population := population s, new_pop := new_pop s @ []\<rparr>)"
    by simp
  then show ?case by blast
next
  case (Cons i "is")
  from mate_ok [OF Cons.prems, of "rnd i"] show ?case
  proof
    assume "mate (rnd i) s = Inl ValueError"
    then show ?thesis by simp
  next
    assume "\<exists>child. 0 \<le> child \<and>
       mate (rnd i) s = Inr (s\<lparr>population := shuffle (shuffle_draw (rnd i)) (population s),
                                  new_pop := new_pop s @ [child]\<rparr>)"
    then obtain child where ch: "0 \<le> child" and
      m: "mate (rnd i) s = Inr (s\<lparr>population := shuffle (shuffle_draw (rnd i)) (population s),
                                  new_pop := new_pop s @ [child]\<rparr>)" by blast
    let ?s1 = "s\<lparr>population := shuffle (shuffle_draw (rnd i)) (population s),
                  new_pop := new_pop s @ [child]\<rparr>"
    from Cons.prems have ok1: "pool_ok ?s1"
      by (simp add: pool_ok_def length_shuffle set_shuffle)
    from Cons.IH [OF ok1] show ?thesis
    proof
      assume "for_loop is (\<lambda>i. mate (rnd i)) ?s1 = Inl ValueError"
      with m show ?thesis by simp
    next
      assume "\<exists>pool children. length children = length is \<and> (\<forall>x\<in>set children. 0 \<le> x) \<and>
        for_loop is (\<lambda>i. mate (rnd i)) ?s1 = Inr (?s1\<lparr>population := pool, new_pop := new_pop ?s1 @ children\<rparr>)"
      then obtain pool children where len: "length children = length is"
        and nn: "\<forall>x\<in>set children. 0 \<le> x"
        and lp: "for_loop is (\<lambda>i. mate (rnd i)) ?s1 = Inr (?s1\<lparr>population := pool, new_pop := new_pop ?s1 @ children\<rparr>)"
        by blast
      have "length (child # children) = length (i # is)" using len by simp
      moreover have "\<forall>x\<in>set (child # children). 0 \<le> x" using ch nn by simp
      moreover have "for_loop (i # is) (\<lambda>i. mate (rnd i)) s =
          Inr (s\<lparr>population := pool, new_pop := new_pop s @ (child # children)\<rparr>)"
        using m lp by simp
      ultimately show ?thesis by blast
    qed
  qed
qed

subsection \<open>A generation keeps the invariant\<close>

lemma pool_length:
  assumes "2 \<le> ps" and "length pop = nat ps"
  shows "2 \<le> length (take (nat (max (ps div 4) 2)) (sort_key k pop))"
proof -
  have n2: "2 \<le> nat (max (ps div 4) 2)" by simp
  have l2: "2 \<le> length (sort_key k pop)" using assms by simp
  show ?thesis unfolding length_take min.bounded_iff using l2 n2 by blast
qed

lemma generation_unfold:
  "generation rnd s =
     bind_e (for_loop [0..<nat (population_size s)] (\<lambda>i. mate (rnd i))
               (s\<lparr>iteration := iteration s + 1,
                  population := take (nat (max (population_size s div 4) 2))
                                  (sort_key (\<lambda>x. abs_diff x (best s)) (population s))\<rparr>))
       (\<lambda>s4. bind_e (time_sleep (sleep s4))
          (\<lambda>_. Inr (s4\<lparr>population := new_pop s4, new_pop := [],
                  best := search_best (desired_number s4) (best s4) (new_pop s4),
                  history := history s4 @ [EvolutionIteration (iteration s4) (new_pop s4)
                     (search_best (desired_number s4) (best s4) (new_pop s4))]\<rparr>)))"
  by (simp add: generation_def Let_def)

lemma generation_ok:
  assumes inv: "evolver_inv s"
  shows "generation rnd s = Inl ValueError \<or> (\<exists>s'. generation rnd s = Inr s' \<and> evolver_inv s')"
proof -
  let ?pool = "take (nat (max (population_size s div 4) 2))
                 (sort_key (\<lambda>x. abs_diff x (best s)) (population s))"
  let ?s3 = "s\<lparr>iteration := iteration s + 1, population := ?pool\<rparr>"
  let ?loop = "for_loop [0..<nat (population_size s)] (\<lambda>i. mate (rnd i)) ?s3"
  from inv have ps: "2 \<le> population_size s" and len: "length (population s) = nat (population_size s)"
    and np: "new_pop s = []" and cr: "cross_range s \<le> max_bits s div 2"
    and nn: "\<forall>x\<in>set (population s). 0 \<le> x"
    unfolding evolver_inv_def by blast+
  have pl: "2 \<le> length ?pool" using ps len by (rule pool_length)
  have pn: "\<forall>x\<in>set ?pool. 0 \<le> x"
  proof
    fix x assume "x \<in> set ?pool"
    then have "x \<in> set (sort_key (\<lambda>x. abs_diff x (best s)) (population s))" by (rule in_set_takeD)
    then have "x \<in> set (population s)" by simp
    with nn show "0 \<le> x" by blast
  qed
  have sel3: "population ?s3 = ?pool" "cross_range ?s3 = cross_range s" "max_bits ?s3 = max_bits s"
    by simp_all
  have ok3: "pool_ok ?s3" unfolding pool_ok_def sel3 using pl pn cr by blast
  from for_loop_mate_ok [OF ok3, of "[0..<nat (population_size s)]" rnd] show ?thesis
  proof
    assume "?loop = Inl ValueError"
    then have "generation rnd s = Inl ValueError"
      unfolding generation_unfold by (simp only: bind_e_Inl)
    then show ?thesis ..
  next
    assume "\<exists>pool children. length children = length [0..<nat (population_size s)] \<and>
        (\<forall>x\<in>set children. 0 \<le> x) \<and>
        ?loop = Inr (?s3\<lparr>population := pool, new_pop := new_pop ?s3 @ children\<rparr>)"
    then obtain pool children where cl0: "length children = length [0..<nat (population_size s)]"
      and cn: "\<forall>x\<in>set children. 0 \<le> x"
      and lp: "?loop = Inr (?s3\<lparr>population := pool, new_pop := new_pop ?s3 @ children\<rparr>)"
      by blast
    from cl0 have cl: "length children = nat (population_size s)" by simp
    let ?s7 = "s\<lparr>iteration := iteration s + 1, population := children, new_pop := [],
          best := search_best (desired_number s) (best s) children,
          history := history s @ [EvolutionIteration (iteration s + 1) children
             (search_best (desired_number s) (best s) children)]\<rparr>"
    have g: "generation rnd s = bind_e (time_sleep (sleep s)) (\<lambda>_. Inr ?s7)"
      unfolding generation_unfold lp bind_e_Inr by (simp add: np)
    show ?thesis
    proof (cases "sleep s < 0")
      case True
      then have "generation rnd s = Inl ValueError"
        unfolding g by (simp add: time_sleep_def bind_e_Inl)
      then show ?thesis ..
    next
      case False
      then have "generation rnd s = Inr ?s7"
        unfolding g by (simp add: time_sleep_def bind_e_Inr)
      moreover have "population_size ?s7 = population_size s" "population ?s7 = children"
        "new_pop ?s7 = []" "cross_range ?s7 = cross_range s" "max_bits ?s7 = max_bits s"
        by simp_all
      then have "evolver_inv ?s7" unfolding evolver_inv_def using ps cl cn cr by presburger
      ultimately show ?thesis by blast
    qed
  qed
qed

lemma evolve_ok:
  "evolver_inv s \<Longrightarrow> evolve rnds s = Inl ValueError \<or> (\<exists>s'. evolve rnds s = Inr s' \<and> evolver_inv s')"
proof (induction rnds arbitrary: s)
  case Nil
  then show ?case by simp
next
  case (Cons rnd rnds)
  show ?case
  proof (cases "best s = Num (desired_number s)")
    case True
    with Cons.prems show ?thesis by (simp add: evolve_step_def)
  next
    case False
    from generation_ok [OF Cons.prems, of rnd] show ?thesis
    proof
      assume "generation rnd s = Inl ValueError"
      with False show ?thesis by (simp add: evolve_step_def)
    next
      assume "\<exists>s'. generation rnd s = Inr s' \<and> evolver_inv s'"
      then obtain s1 where g: "generation rnd s = Inr s1" and i1: "evolver_inv s1" by blast
      from Cons.IH [OF i1] g False show ?thesis by (simp add: evolve_step_def)
    qed
  qed
qed

lemma evolve_population_size:
  "evolve rnds s = Inr s' \<Longrightarrow> population_size s' = population_size s"
proof (induction rnds arbitrary: s)
  case Nil
  then show ?case by simp
next
  case (Cons rnd rnds)
  show ?case
  proof (cases "evolve_step rnd s")
    case None
    with Cons.prems show ?thesis by simp
  next
    case (Some res)
    with Cons.prems obtain s1 where r: "res = Inr s1" and e: "evolve rnds s1 = Inr s'"
      by (cases res) simp_all
    from Some r have "generation rnd s = Inr s1" by (simp add: evolve_step_generation)
    from generation_frame [OF this] have "population_size s1 = population_size s" by auto
    with Cons.IH [OF e] show ?thesis by simp
  qed
qed

lemma comprehension_randint:
  "0 \<le> b \<Longrightarrow> \<exists>ys. comprehension (\<lambda>i. randint 0 b (draws i)) xs = Inr ys
      \<and> length ys = length xs \<and> (\<forall>y\<in>set ys. 0 \<le> y \<and> y \<le> b)"
proof (induction xs)
  case Nil
  show ?case by simp
next
  case (Cons x xs)
  from Cons obtain ys where ys: "comprehension (\<lambda>i. randint 0 b (draws i)) xs = Inr ys"
    "length ys = length xs" "\<forall>y\<in>set ys. 0 \<le> y \<and> y \<le> b" by blast
  from \<open>0 \<le> b\<close> obtain v where v: "randint 0 b (draws x) = Inr v"
    using randint_nonempty [of 0 b "draws x"] by blast
  from randint_range [OF v] have "0 \<le> v \<and> v \<le> b" .
  with ys v show ?case by simp
qed

lemma init_result:
  assumes "1 \<le> max_number"
  shows "\<exists>pop. length pop = nat (max psize 2) \<and> (\<forall>y\<in>set pop. 0 \<le> y \<and> y \<le> max_number) \<and>
     init desired psize max_number crange slp draws =
       Inr \<lparr> desired_number = min (max 0 desired) max_number,
             population_size = max psize 2,
             max_bits = int (floor_log2 (nat max_number)) + 1,
             cross_range = min ((int (floor_log2 (nat max_number)) + 1) div 2) crange,
             best = Infinity, iteration = 0, new_pop = [], history = [], sleep = slp,
             population = pop \<rparr>"
proof -
  from assms have "0 \<le> max_number" by simp
  from comprehension_randint [OF this, of draws "[0..<nat (max psize 2)]"] obtain pop where
    c: "comprehension (\<lambda>i. randint 0 max_number (draws i)) [0..<nat (max psize 2)] = Inr pop"
    and l: "length pop = nat (max psize 2)" and r: "\<forall>y\<in>set pop. 0 \<le> y \<and> y \<le> max_number"
    by auto
  from assms have "math_floor_log2 max_number = Inr (int (floor_log2 (nat max_number)))"
    by (simp add: math_floor_log2_def)
  then have "init desired psize max_number crange slp draws =
       Inr \<lparr> desired_number = min (max 0 desired) max_number,
             population_size = max psize 2,
             max_bits = int (floor_log2 (nat max_number)) + 1,
             cross_range = min ((int (floor_log2 (nat max_number)) + 1) div 2) crange,
             best = Infinity, iteration = 0, new_pop = [], history = [], sleep = slp,
             population = pop \<rparr>"
    by (simp add: init_def bind_e_def Let_def c)
  with l r show ?thesis by blast
qed

lemma init_raises: "max_number \<le> 0 \<Longrightarrow> init desired psize max_number crange slp draws = Inl ValueError"
  by (simp add: init_def math_floor_log2_def bind_e_def)

lemma init_inv:
  assumes "init desired psize max_number crange slp draws = Inr s"
  shows "evolver_inv s \<and> population_size s = max psize 2"
proof -
  have "1 \<le> max_number"
  proof (rule ccontr)
    assume "\<not> 1 \<le> max_number"
    then have "max_number \<le> 0" by simp
    from init_raises [OF this] assms show False by simp
  qed
  from init_result [OF this, of psize desired crange slp draws] assms show ?thesis
    by (auto simp: evolver_inv_def)
qed

subsection \<open>The exact logarithm and the example runs\<close>

text \<open>\<open>floor_log2\<close> is the floor of the real logarithm to base 2.\<close>

lemma floor_log2_bounds: "0 < n \<Longrightarrow> 2 ^ floor_log2 n \<le> n \<and> n < 2 ^ Suc (floor_log2 n)"
proof (induction n rule: floor_log2.induct)
  case (1 n)
  show ?case
  proof (cases "n < 2")
    case True
    with 1 show ?thesis by (subst (1 2) floor_log2.simps) simp
  next
    case False
    then have "0 < n div 2" by simp
    with 1 False have "2 ^ floor_log2 (n div 2) \<le> n div 2 \<and> n div 2 < 2 ^ Suc (floor_log2 (n div 2))"
      by simp
    with False show ?thesis by (subst (1 2) floor_log2.simps) auto
  qed
qed

lemma floor_log2_is_floor_log: "0 < n \<Longrightarrow> \<lfloor>log 2 (real n)\<rfloor> = int (floor_log2 n)"
  using floor_log2_bounds [of n] floor_log_nat_eq_powr_iff [of 2 n "floor_log2 n"] by simp

lemma example_evolve: "evolve [example_draws] example_start = Inr example_next"
  by code_simp

lemma evolve_Nil: "evolve [] s = Inr s"
  by simp

section \<open>The conversions of utilities.py\<close>

text \<open>
  C1. Encoding \<open>n\<close> with \<open>dec_to_bin\<close> at the evolver's width and decoding with
  \<open>bin_to_dec\<close> should give \<open>n\<close> back. With \<open>max_number = 255\<close> the width is 8, and the
  round trip of 2 gives 1: the digits come out most significant first and are read least
  significant first.
\<close>

theorem roundtrip_of_2_is_1:
  "math_floor_log2 255 = Inr 7 \<and>
   dec_to_bin 2 (7 + 1) = Inr [1, 0, 0, 0, 0, 0, 0, 0] \<and>
   bin_to_dec [1, 0, 0, 0, 0, 0, 0, 0] = 1"
  by code_simp

text \<open>
  C2, as stated: \<open>dec_to_bin(5, places=4)\<close> is \<open>[0,1,0,1]\<close> and \<open>bin_to_dec([0,1,0,1])\<close>
  is 5. Neither holds.
\<close>

theorem dec_to_bin_5_counterexample:
  "dec_to_bin 5 4 \<noteq> Inr [0, 1, 0, 1] \<and> bin_to_dec [0, 1, 0, 1] \<noteq> 5"
  by code_simp

text \<open>
  C2, amended: \<open>dec_to_bin(5, places=4)\<close> is \<open>[1,0,1,0]\<close>, the zero being appended on the
  right, and \<open>bin_to_dec\<close> gives position \<open>i\<close> the weight \<open>2 ^ i\<close>, so that
  \<open>bin_to_dec([1,0,1,0])\<close> is 5 and \<open>bin_to_dec([0,1,0,1])\<close> is 10.
\<close>

theorem dec_to_bin_5_places_4:
  "dec_to_bin 5 4 = Inr [1, 0, 1, 0] \<and> bin_to_dec [1, 0, 1, 0] = 5 \<and> bin_to_dec [0, 1, 0, 1] = 10"
  by code_simp

text \<open>
  C9, as stated: \<open>calc_level(255, 256, (200, 600))\<close> is about 200.39. It is 201.5625,
  more than 1 away.
\<close>

theorem calc_level_255_counterexample:
  "calc_level 255 256 (200, 600) = Inr (3225 / 16) \<and> \<bar>(3225 / 16 :: rat) - 20039 / 100\<bar> > 1"
  by (simp add: calc_level_def)

text \<open>
  C9, amended: \<open>calc_level(0, 256, (200, 600))\<close> is 600 and
  \<open>calc_level(255, 256, (200, 600))\<close> is 201.5625.
\<close>

theorem calc_level_scenario:
  "calc_level 0 256 (200, 600) = Inr 600 \<and>
   calc_level 255 256 (200, 600) = Inr (2015625 / 10000)"
  by (simp add: calc_level_def)

section \<open>The best estimate\<close>

text \<open>
  C3, as stated: on a tie between a member and the current best, the best estimate becomes
  the member. With target 5, best 4 and the member 6, both at distance 1, the best stays 4.
\<close>

theorem search_best_tie_counterexample:
  "search_best 5 (Num 4) [6] = Num 4 \<and> abs_diff 5 (Num 6) = abs_diff 5 (Num 4)"
  by code_simp

text \<open>
  C3, amended: in the rescan the best estimate is replaced by a population member whenever
  that member is strictly closer to the target than the current best; on a tie the current
  best is kept, and only candidates that are not strictly closer are rejected. For the
  whole rescan: if some member is strictly closer than the best estimate, the estimate
  changes to a member strictly closer than it was; afterwards no member is strictly closer
  than the best estimate; and if no member is strictly closer, the estimate is unchanged.
\<close>

theorem search_best_strictly_closer:
  "search_step d b x = (if abs_diff d (Num x) < abs_diff d b then Num x else b) \<and>
   ((\<exists>x\<in>set pop. abs_diff d (Num x) < abs_diff d b) \<longrightarrow>
      search_best d b pop \<noteq> b \<and>
      (\<exists>y\<in>set pop. search_best d b pop = Num y \<and> abs_diff d (Num y) < abs_diff d b)) \<and>
   (\<forall>x\<in>set pop. abs_diff d (search_best d b pop) \<le> abs_diff d (Num x)) \<and>
   (search_best d b pop \<noteq> b \<longrightarrow>
      (\<exists>x\<in>set pop. search_best d b pop = Num x \<and> abs_diff d (Num x) < abs_diff d b)) \<and>
   ((\<forall>x\<in>set pop. abs_diff d b \<le> abs_diff d (Num x)) \<longrightarrow> search_best d b pop = b)"
proof (intro conjI impI)
  show "search_step d b x = (if abs_diff d (Num x) < abs_diff d b then Num x else b)"
    by (simp add: search_step_cases abs_diff_Num)
  show "\<forall>x\<in>set pop. abs_diff d (search_best d b pop) \<le> abs_diff d (Num x)"
    by (rule search_best_min)
  show "search_best d b pop = b" if "\<forall>x\<in>set pop. abs_diff d b \<le> abs_diff d (Num x)"
    using that by (rule search_best_keep)
  show "\<exists>x\<in>set pop. search_best d b pop = Num x \<and> abs_diff d (Num x) < abs_diff d b"
    if "search_best d b pop \<noteq> b"
    using that search_best_member [of d b pop] by blast
  assume "\<exists>x\<in>set pop. abs_diff d (Num x) < abs_diff d b"
  then obtain x where "x \<in> set pop" "abs_diff d (Num x) < abs_diff d b" by blast
  then show ne: "search_best d b pop \<noteq> b" by (rule search_best_replaces)
  with search_best_member [of d b pop]
  show "\<exists>y\<in>set pop. search_best d b pop = Num y \<and> abs_diff d (Num y) < abs_diff d b"
    by blast
qed

theorem search_best_strictly_closer_witness:
  "abs_diff 5 (Num 6) < abs_diff 5 (Num 3) \<and>
   search_step 5 (Num 3) 6 = Num 6 \<and> search_step 5 (Num 4) 6 = Num 4 \<and>
   search_best 5 (Num 3) [6, 4] = Num 6 \<and> search_best 5 (Num 3) [6, 4] \<noteq> Num 3 \<and>
   abs_diff 5 (search_best 5 (Num 3) [6, 4]) \<le> abs_diff 5 (Num 4) \<and>
   abs_diff 5 (Num 4) \<le> abs_diff 5 (Num 6) \<and> abs_diff 5 (Num 4) \<le> abs_diff 5 (Num 3) \<and>
   search_best 5 (Num 4) [6, 3] = Num 4"
proof -
  have h0: "\<exists>x\<in>set [6, 4]. abs_diff 5 (Num x) < abs_diff 5 (Num 3)"
    by (simp add: abs_diff_def)
  have h1: "\<forall>x\<in>set [6, 3]. abs_diff 5 (Num 4) \<le> abs_diff 5 (Num x)"
    by (simp add: abs_diff_def)
  have h2: "search_best 5 (Num 3) [6, 4] = Num 6"
    by code_simp
  from search_best_strictly_closer [of 5 "Num 4" 6 "[6, 3]"] search_best_strictly_closer [of 5 "Num 3" 6 "[6, 4]"] h0 h1 h2
  show ?thesis by (simp add: abs_diff_def)
qed

text \<open>
  C5. Over every generation the distance of the best estimate to the target does not grow,
  the initial \<open>math.inf\<close> counting as an infinite distance; the target itself is unchanged.
\<close>

theorem best_distance_nonincreasing:
  "evolve_step rnd s = Some (Inr s') \<Longrightarrow>
     desired_number s' = desired_number s \<and>
     abs_diff (desired_number s') (best s') \<le> abs_diff (desired_number s) (best s)"
proof -
  assume "evolve_step rnd s = Some (Inr s')"
  then have "generation rnd s = Inr s'" by (rule evolve_step_generation)
  from generation_frame [OF this] obtain children where
    "s' = s\<lparr>iteration := iteration s + 1,
            population := new_pop s @ children,
            new_pop := [],
            best := search_best (desired_number s) (best s) (new_pop s @ children),
            history := history s @ [EvolutionIteration (iteration s + 1) (new_pop s @ children)
               (search_best (desired_number s) (best s) (new_pop s @ children))]\<rparr>"
    by blast
  then have "desired_number s' = desired_number s"
    and "best s' = search_best (desired_number s) (best s) (new_pop s @ children)"
    by simp_all
  then show ?thesis by (simp add: search_best_le)
qed

theorem best_distance_nonincreasing_witness:
  "evolve_step example_draws example_start = Some (Inr example_next) \<and>
   abs_diff (desired_number example_next) (best example_next)
     \<le> abs_diff (desired_number example_start) (best example_start)"
  using best_distance_nonincreasing [OF example_step] example_step by blast

section \<open>The loop\<close>

text \<open>
  C7. When the best estimate equals the desired number the loop is left: there is no further
  generation and the history stays as it is. Before that, a generation that completes
  appends exactly one record, the one of the state it ends in.
\<close>

theorem evolve_halts_on_match:
  "(best s = Num (desired_number s) \<longrightarrow> evolve_step rnd s = None \<and> evolve rnds s = Inr s) \<and>
   (evolve_step rnd s = Some (Inr s') \<longrightarrow>
      best s \<noteq> Num (desired_number s) \<and>
      history s' = history s @ [EvolutionIteration (iteration s') (population s') (best s')])"
proof (intro conjI impI)
  assume "best s = Num (desired_number s)"
  then have leave: "evolve_step r s = None" for r by (simp add: evolve_step_def)
  show "evolve_step rnd s = None" by (rule leave)
  show "evolve rnds s = Inr s" by (cases rnds) (simp_all add: leave)
next
  assume st: "evolve_step rnd s = Some (Inr s')"
  then show "best s \<noteq> Num (desired_number s)"
    by (simp add: evolve_step_def split: if_splits)
  from st have "generation rnd s = Inr s'" by (rule evolve_step_generation)
  from generation_frame [OF this] obtain children where
    "s' = s\<lparr>iteration := iteration s + 1,
            population := new_pop s @ children,
            new_pop := [],
            best := search_best (desired_number s) (best s) (new_pop s @ children),
            history := history s @ [EvolutionIteration (iteration s + 1) (new_pop s @ children)
               (search_best (desired_number s) (best s) (new_pop s @ children))]\<rparr>"
    by blast
  then show "history s' = history s @ [EvolutionIteration (iteration s') (population s') (best s')]"
    by simp
qed

theorem evolve_halts_on_match_witness:
  "best example_next = Num (desired_number example_next) \<and>
   evolve_step example_draws example_next = None \<and>
   evolve [example_draws, example_draws] example_next = Inr example_next \<and>
   evolve_step example_draws example_start = Some (Inr example_next) \<and>
   best example_start \<noteq> Num (desired_number example_start) \<and>
   history example_next = history example_start @ [EvolutionIteration 1 [4, 5, 4, 5] (Num 5)]"
proof -
  have m: "best example_next = Num (desired_number example_next)"
    by (simp add: example_next_def)
  from evolve_halts_on_match [of example_next example_draws "[example_draws, example_draws]"] m
    evolve_halts_on_match [of example_start example_draws "[]" example_next] example_step
  show ?thesis by (simp add: example_next_def)
qed

section \<open>Construction\<close>

text \<open>
  C8, as stated: no combination of input parameters raises an error at construction.
  \<open>max_number = 0\<close> does: the logarithm raises.
\<close>

theorem init_max_number_0_counterexample: "init 5 8 0 1 1 (\<lambda>_. 0) = Inl ValueError"
  by code_simp

text \<open>
  C8, amended: for every \<open>max_number \<ge> 1\<close>, every combination of the other parameters is
  accepted without error; \<open>desired_number\<close> is clamped into \<open>[0, max_number]\<close>,
  \<open>population_size\<close> to at least 2 and \<open>cross_range\<close> to at most half the bit width.
\<close>

theorem init_clamps:
  "1 \<le> max_number \<Longrightarrow>
     \<exists>s. init desired psize max_number crange slp draws = Inr s \<and>
         desired_number s = min (max 0 desired) max_number \<and>
         0 \<le> desired_number s \<and> desired_number s \<le> max_number \<and>
         population_size s = max psize 2 \<and> 2 \<le> population_size s \<and>
         cross_range s = min (max_bits s div 2) crange \<and> cross_range s \<le> max_bits s div 2"
proof -
  assume mn: "1 \<le> max_number"
  from init_result [OF mn, of psize desired crange slp draws] obtain pop where
    "init desired psize max_number crange slp draws =
       Inr \<lparr> desired_number = min (max 0 desired) max_number,
             population_size = max psize 2,
             max_bits = int (floor_log2 (nat max_number)) + 1,
             cross_range = min ((int (floor_log2 (nat max_number)) + 1) div 2) crange,
             best = Infinity, iteration = 0, new_pop = [], history = [], sleep = slp,
             population = pop \<rparr>" by blast
  moreover from mn have "0 \<le> min (max 0 desired) max_number"
    and "min (max 0 desired) max_number \<le> max_number" by simp_all
  ultimately show ?thesis by simp
qed

theorem init_clamps_witness:
  "(1::int) \<le> 255 \<and>
   init 300 1 255 9 (-1) (\<lambda>i. i) =
     Inr \<lparr>desired_number = 255, population_size = 2, max_bits = 8, cross_range = 4,
          best = Infinity, iteration = 0, new_pop = [], history = [], sleep = -1,
          population = [0, 1]\<rparr> \<and>
   (0::int) \<le> 255 \<and> (255::int) \<le> 255 \<and> (2::int) \<le> 2 \<and> (4::int) \<le> 8 div 2"
proof -
  have e: "init 300 1 255 9 (-1) (\<lambda>i. i) =
     Inr \<lparr>desired_number = 255, population_size = 2, max_bits = 8, cross_range = 4,
          best = Infinity, iteration = 0, new_pop = [], history = [], sleep = -1,
          population = [0, 1]\<rparr>"
    by code_simp
  from init_clamps [of 255 300 1 9 "-1" "\<lambda>i. i"] e show ?thesis by simp
qed

section \<open>The population\<close>

text \<open>
  C4. Every member of the population should lie in \<open>[0, max_number]\<close>. With
  \<open>max_number = 4\<close> the width is 3 bits; from the population \<open>[4, 4]\<close> a mating that mutates
  position 2 decodes the child 5, and the next population is \<open>[5, 5]\<close>.
\<close>

theorem child_exceeds_max_number: "init 0 2 4 1 1 (\<lambda>_. 4) = Inr overflow_start \<and>
   evolve_step example_draws overflow_start = Some (Inr overflow_next) \<and>
   population overflow_next = [5, 5]"
  by code_simp

text \<open>
  C6. In every state the evolver reaches from its construction the population has exactly
  the clamped \<open>population_size\<close> members, which is at least 2; and every generation that
  completes from such a state leaves a population of that many members, one child for each
  of the \<open>population_size\<close> matings.
\<close>

theorem population_size_invariant:
  assumes "init desired psize max_number crange slp draws = Inr s0" and "evolve rnds s0 = Inr s"
  shows "population_size s = max psize 2 \<and> 2 \<le> population_size s \<and>
         length (population s) = nat (population_size s) \<and>
         (\<forall>rnd s'. evolve_step rnd s = Some (Inr s') \<longrightarrow>
            population_size s' = population_size s \<and> length (population s') = nat (population_size s))"
proof -
  from init_inv [OF assms(1)] have i0: "evolver_inv s0" and p0: "population_size s0 = max psize 2"
    by blast+
  from evolve_ok [OF i0, of rnds] assms(2) have inv: "evolver_inv s" by auto
  from evolve_population_size [OF assms(2)] p0 have ps: "population_size s = max psize 2" by simp
  from inv have "2 \<le> population_size s" and len: "length (population s) = nat (population_size s)"
    and np: "new_pop s = []"
    unfolding evolver_inv_def by blast+
  moreover have "population_size s' = population_size s \<and> length (population s') = nat (population_size s)"
    if "evolve_step rnd s = Some (Inr s')" for rnd s'
  proof -
    from that have "generation rnd s = Inr s'" by (rule evolve_step_generation)
    from generation_frame [OF this] obtain children where
      cl: "length children = nat (population_size s)" and
      s': "s' = s\<lparr>iteration := iteration s + 1,
                   population := new_pop s @ children,
                   new_pop := [],
                   best := search_best (desired_number s) (best s) (new_pop s @ children),
                   history := history s @ [EvolutionIteration (iteration s + 1) (new_pop s @ children)
                      (search_best (desired_number s) (best s) (new_pop s @ children))]\<rparr>"
      by blast
    from s' have "population_size s' = population_size s" and "population s' = new_pop s @ children"
      by simp_all
    with cl np show ?thesis by simp
  qed
  ultimately show ?thesis using ps by blast
qed

theorem population_size_invariant_witness:
  "init 5 4 7 1 1 (\<lambda>i. i) = Inr example_start \<and> evolve [] example_start = Inr example_start \<and>
   evolve_step example_draws example_start = Some (Inr example_next) \<and>
   population_size example_start = max 4 2 \<and> length (population example_start) = 4 \<and>
   population_size example_next = 4 \<and> length (population example_next) = 4"
  using population_size_invariant [OF example_init evolve_Nil] example_init example_step
  by (simp add: example_start_def example_next_def)

text \<open>
  C10. No list access of a run raises \<open>IndexError\<close>. In every state reached from the
  construction: the next generation raises no \<open>IndexError\<close>; the truncated breeding pool
  has at least 2 members; the bit list of every member is at least \<open>max_bits\<close> long; every
  crossover index \<open>cross + j\<close> with \<open>cross\<close> in \<open>[0, max_bits // 2 - 1]\<close> and
  \<open>j < cross_range\<close>, and every mutation index in \<open>[0, max_bits - 1]\<close>, is below the length
  of the bit list.
\<close>

theorem list_accesses_in_bounds:
  assumes "init desired psize max_number crange slp draws = Inr s0"
  shows "evolve rnds s0 \<noteq> Inl IndexError \<and>
     (\<forall>s. evolve rnds s0 = Inr s \<longrightarrow>
        (\<forall>rnd. evolve_step rnd s \<noteq> Some (Inl IndexError)) \<and>
        2 \<le> length (take (nat (max (population_size s div 4) 2))
                      (sort_key (\<lambda>x. abs_diff x (best s)) (population s))) \<and>
        (\<forall>x\<in>set (population s).
           \<exists>bits. dec_to_bin x (max_bits s) = Inr bits \<and> max_bits s \<le> int (length bits) \<and>
             (\<forall>cross j. 0 \<le> cross \<and> cross \<le> max_bits s div 2 - 1 \<and> 0 \<le> j \<and> j < cross_range s
                \<longrightarrow> 0 \<le> cross + j \<and> cross + j < int (length bits)) \<and>
             (\<forall>m. 0 \<le> m \<and> m \<le> max_bits s - 1 \<longrightarrow> m < int (length bits))))"
proof (intro conjI allI impI)
  from init_inv [OF assms] have i0: "evolver_inv s0" by blast
  from evolve_ok [OF i0, of rnds] show "evolve rnds s0 \<noteq> Inl IndexError" by auto
  fix s assume "evolve rnds s0 = Inr s"
  with evolve_ok [OF i0, of rnds] have inv: "evolver_inv s" by auto
  then have ps: "2 \<le> population_size s" and len: "length (population s) = nat (population_size s)"
    and cr: "cross_range s \<le> max_bits s div 2" and nn: "\<forall>x\<in>set (population s). 0 \<le> x"
    unfolding evolver_inv_def by blast+
  show "evolve_step rnd s \<noteq> Some (Inl IndexError)" for rnd
    using generation_ok [OF inv, of rnd] by (auto simp: evolve_step_def)
  show "2 \<le> length (take (nat (max (population_size s div 4) 2))
                      (sort_key (\<lambda>x. abs_diff x (best s)) (population s)))"
    using ps len by (rule pool_length)
  show "\<forall>x\<in>set (population s).
           \<exists>bits. dec_to_bin x (max_bits s) = Inr bits \<and> max_bits s \<le> int (length bits) \<and>
             (\<forall>cross j. 0 \<le> cross \<and> cross \<le> max_bits s div 2 - 1 \<and> 0 \<le> j \<and> j < cross_range s
                \<longrightarrow> 0 \<le> cross + j \<and> cross + j < int (length bits)) \<and>
             (\<forall>m. 0 \<le> m \<and> m \<le> max_bits s - 1 \<longrightarrow> m < int (length bits))"
  proof
    fix x assume "x \<in> set (population s)"
    with nn have "0 \<le> x" by blast
    from dec_to_bin_ok [OF this, of "max_bits s"] obtain bits where
      d: "dec_to_bin x (max_bits s) = Inr bits" and l: "max_bits s \<le> int (length bits)"
      unfolding bits_ok_def by blast
    have "0 \<le> cross + j \<and> cross + j < int (length bits)"
      if "0 \<le> cross \<and> cross \<le> max_bits s div 2 - 1 \<and> 0 \<le> j \<and> j < cross_range s" for cross j
      using that cr l by linarith
    moreover have "m < int (length bits)" if "0 \<le> m \<and> m \<le> max_bits s - 1" for m
      using that l by linarith
    ultimately show "\<exists>bits. dec_to_bin x (max_bits s) = Inr bits \<and> max_bits s \<le> int (length bits) \<and>
             (\<forall>cross j. 0 \<le> cross \<and> cross \<le> max_bits s div 2 - 1 \<and> 0 \<le> j \<and> j < cross_range s
                \<longrightarrow> 0 \<le> cross + j \<and> cross + j < int (length bits)) \<and>
             (\<forall>m. 0 \<le> m \<and> m \<le> max_bits s - 1 \<longrightarrow> m < int (length bits))"
      using d l by blast
  qed
qed

theorem list_accesses_in_bounds_witness:
  "init 5 4 7 1 1 (\<lambda>i. i) = Inr example_start \<and>
   evolve [example_draws] example_start = Inr example_next \<and>
   evolve [example_draws] example_start \<noteq> Inl IndexError \<and>
   evolve_step example_draws example_next \<noteq> Some (Inl IndexError) \<and>
   2 \<le> length (take (nat (max (population_size example_next div 4) 2))
                 (sort_key (\<lambda>x. abs_diff x (best example_next)) (population example_next))) \<and>
   dec_to_bin 4 (max_bits example_next) = Inr [1, 0, 0] \<and>
   max_bits example_next \<le> int (length [1, 0, 0 :: int]) \<and>
   (0 :: int) + 0 < int (length [1, 0, 0 :: int]) \<and>
   max_bits example_next - 1 < int (length [1, 0, 0 :: int])"
proof -
  have d: "dec_to_bin 4 (max_bits example_next) = Inr [1, 0, 0]"
    by code_simp
  have m: "max_bits example_next = 3" and c: "cross_range example_next = 1"
    and x: "4 \<in> set (population example_next)"
    by (simp_all add: example_next_def)
  note run = list_accesses_in_bounds [OF example_init, of "[example_draws]"]
  from run example_evolve have a: "evolve [example_draws] example_start \<noteq> Inl IndexError"
    and b: "evolve_step example_draws example_next \<noteq> Some (Inl IndexError)"
    and p: "2 \<le> length (take (nat (max (population_size example_next div 4) 2))
                 (sort_key (\<lambda>x. abs_diff x (best example_next)) (population example_next)))"
    by blast+
  from run example_evolve x obtain bits where
    "dec_to_bin 4 (max_bits example_next) = Inr bits"
    and l: "max_bits example_next \<le> int (length bits)"
    and k: "\<forall>cross j. 0 \<le> cross \<and> cross \<le> max_bits example_next div 2 - 1 \<and> 0 \<le> j
              \<and> j < cross_range example_next \<longrightarrow> 0 \<le> cross + j \<and> cross + j < int (length bits)"
    and u: "\<forall>m. 0 \<le> m \<and> m \<le> max_bits example_next - 1 \<longrightarrow> m < int (length bits)"
    by blast
  with d have bits: "bits = [1, 0, 0]" by simp
  from k [rule_format, of 0 0] m c have "(0 :: int) + 0 < int (length bits)" by simp
  moreover from u [rule_format, of "max_bits example_next - 1"] m
  have "max_bits example_next - 1 < int (length bits)" by simp
  ultimately show ?thesis using a b p d l bits example_init example_evolve by blast
qed

end
